theory Spec2Isabelle
  imports Complex_Main
begin

section \<open>Python values used by the photo formatter\<close>

text \<open>
  The two scripts \<^verbatim>\<open>photo_formatter.py\<close> and \<^verbatim>\<open>10x15_Photo_Formatter.py\<close> compute with
  Python ints (unbounded, modelled as \<^typ>\<open>int\<close>) and Python floats (IEEE 754 binary64).
  An exception is a value of type \<open>error\<close> carrying the text of \<^verbatim>\<open>str(e)\<close>; a computation
  that may raise returns \<open>error + 'a\<close> with \<open>Inl\<close> for the exception.
\<close>

datatype error =
    ZeroDivisionError string
  | OverflowError string
  | ValueError string
  | OSError string

fun str_error :: "error \<Rightarrow> string" where
  "str_error (ZeroDivisionError m) = m"
| "str_error (OverflowError m) = m"
| "str_error (ValueError m) = m"
| "str_error (OSError m) = m"

subsection \<open>Binary64 floats\<close>

text \<open>
  A float is a finite rational (its exact value), an infinity or NaN. The sign of a zero
  is not kept: none of the modelled operations can observe it (division by either zero
  raises, and \<^verbatim>\<open>round\<close>, \<^verbatim>\<open>floor\<close> and the comparisons treat both zeros alike).
\<close>

datatype pyfloat = Finite rat | PosInf | NegInf | NaN

text \<open>\<open>bit_length n\<close> is Python's \<^verbatim>\<open>n.bit_length()\<close> for \<open>n \<ge> 0\<close>.\<close>

function bit_length :: "int \<Rightarrow> int" where
  "bit_length n = (if n \<le> 0 then 0 else bit_length (n div 2) + 1)"
  by pat_completeness auto
termination
  by (relation "measure nat") auto

declare bit_length.simps [simp del]

text \<open>\<open>binade x\<close> is the exponent \<open>e\<close> with \<open>2\<^sup>e \<le> |x| < 2\<^bsup>e+1\<^esup>\<close>, for \<open>x \<noteq> 0\<close>.\<close>

definition binade :: "rat \<Rightarrow> int" where
  "binade x =
     (let (a, b) = quotient_of \<bar>x\<bar>;
          k = bit_length a - bit_length b
      in if 2 powi k \<le> \<bar>x\<bar> then k else k - 1)"

text \<open>Rounding to the nearest integer, ties to the even one: Python's one-argument
  \<^verbatim>\<open>round\<close> on a float, and the rounding of a binary64 significand.\<close>

definition round_half_even :: "rat \<Rightarrow> int" where
  "round_half_even x =
     (let f = \<lfloor>x\<rfloor>; d = x - of_int f
      in if d < 1 / 2 then f else if 1 / 2 < d then f + 1
         else if even f then f else f + 1)"

text \<open>
  \<open>fl x\<close> rounds \<open>x\<close> to the nearest number with a 53-bit significand and exponent at
  least \<open>-1022\<close> (so subnormals are spaced \<open>2\<^bsup>-1074\<^esup>\<close> apart), ties to even.
  \<open>to_double\<close> adds the upper limit of the exponent range: a rounded magnitude of
  \<open>2\<^bsup>1024\<^esup>\<close> or more is an infinity.
\<close>

definition fl :: "rat \<Rightarrow> rat" where
  "fl x =
     (if x = 0 then 0
      else let u = 2 powi (max (binade x) (- 1022) - 52)
           in of_int (round_half_even (x / u)) * u)"

definition to_double :: "rat \<Rightarrow> pyfloat" where
  "to_double x =
     (let y = fl x
      in if 2 ^ 1024 \<le> y then PosInf
         else if y \<le> - (2 ^ 1024) then NegInf
         else Finite y)"

subsection \<open>The arithmetic operations the scripts use\<close>

text \<open>An int operand of a mixed int/float operation is converted first; the conversion
  rounds to nearest-even and raises when the int is too large.\<close>

definition float_of_int :: "int \<Rightarrow> error + pyfloat" where
  "float_of_int n =
     (case to_double (of_int n) of
        Finite y \<Rightarrow> Inr (Finite y)
      | _ \<Rightarrow> Inl (OverflowError ''int too large to convert to float''))"

text \<open>\<^verbatim>\<open>a / b\<close> on two ints: the correctly rounded quotient.\<close>

definition int_truediv :: "int \<Rightarrow> int \<Rightarrow> error + pyfloat" where
  "int_truediv a b =
     (if b = 0 then Inl (ZeroDivisionError ''division by zero'')
      else case to_double (of_int a / of_int b) of
             Finite y \<Rightarrow> Inr (Finite y)
           | _ \<Rightarrow> Inl (OverflowError ''integer division result too large for a float''))"

fun sign_neg :: "pyfloat \<Rightarrow> bool" where
  "sign_neg (Finite x) = (x < 0)"
| "sign_neg NegInf = True"
| "sign_neg _ = False"

text \<open>\<^verbatim>\<open>a * b\<close> on two floats never raises; an overflow gives an infinity.\<close>

fun float_mul :: "pyfloat \<Rightarrow> pyfloat \<Rightarrow> pyfloat" where
  "float_mul (Finite x) (Finite y) = to_double (x * y)"
| "float_mul NaN _ = NaN"
| "float_mul _ NaN = NaN"
| "float_mul a b =
     (if a = Finite 0 \<or> b = Finite 0 then NaN
      else if sign_neg a = sign_neg b then PosInf else NegInf)"

text \<open>\<^verbatim>\<open>a / b\<close> on two floats raises only for a zero divisor.\<close>

fun float_truediv :: "pyfloat \<Rightarrow> pyfloat \<Rightarrow> error + pyfloat" where
  "float_truediv a (Finite y) =
     (if y = 0 then Inl (ZeroDivisionError ''float division by zero'')
      else case a of
             Finite x \<Rightarrow> Inr (to_double (x / y))
           | NaN \<Rightarrow> Inr NaN
           | _ \<Rightarrow> Inr (if sign_neg a = (y < 0) then PosInf else NegInf))"
| "float_truediv NaN _ = Inr NaN"
| "float_truediv _ NaN = Inr NaN"
| "float_truediv (Finite x) _ = Inr (Finite 0)"
| "float_truediv _ _ = Inr NaN"

fun float_less :: "pyfloat \<Rightarrow> pyfloat \<Rightarrow> bool" where
  "float_less (Finite x) (Finite y) = (x < y)"
| "float_less NaN _ = False"
| "float_less _ NaN = False"
| "float_less NegInf NegInf = False"
| "float_less NegInf _ = True"
| "float_less _ NegInf = False"
| "float_less PosInf _ = False"
| "float_less _ PosInf = True"

text \<open>The builtin \<^verbatim>\<open>min(a, b)\<close> keeps \<open>a\<close> unless \<open>b < a\<close>.\<close>

definition float_min :: "pyfloat \<Rightarrow> pyfloat \<Rightarrow> pyfloat" where
  "float_min a b = (if float_less b a then b else a)"

text \<open>\<^verbatim>\<open>math.floor(x)\<close> and \<^verbatim>\<open>round(x)\<close> return ints and raise on an infinity or NaN.\<close>

fun py_floor :: "pyfloat \<Rightarrow> error + int" where
  "py_floor (Finite x) = Inr \<lfloor>x\<rfloor>"
| "py_floor NaN = Inl (ValueError ''cannot convert float NaN to integer'')"
| "py_floor _ = Inl (OverflowError ''cannot convert float infinity to integer'')"

fun py_round :: "pyfloat \<Rightarrow> error + int" where
  "py_round (Finite x) = Inr (round_half_even x)"
| "py_round NaN = Inl (ValueError ''cannot convert float NaN to integer'')"
| "py_round _ = Inl (OverflowError ''cannot convert float infinity to integer'')"

section \<open>Geometry: physical size to pixels, canvas orientation\<close>

text \<open>
  \<^verbatim>\<open>def cm_to_px(cm, dpi): inches = cm / 2.54; return int(round(inches * dpi))\<close>

  Both call sites pass the int literals 15 and 10 for \<open>cm\<close>, and \<open>dpi\<close> is the int parsed
  from the DPI field. The literal \<^verbatim>\<open>2.54\<close> is the double nearest to 254/100. \<^verbatim>\<open>round\<close>
  already returns an int, so \<^verbatim>\<open>int(...)\<close> changes nothing.
\<close>

definition cm_to_px :: "int \<Rightarrow> int \<Rightarrow> error + int" where
  "cm_to_px cm dpi =
     (case float_of_int cm of Inl e \<Rightarrow> Inl e | Inr c \<Rightarrow>
       (case float_truediv c (to_double (254 / 100)) of Inl e \<Rightarrow> Inl e | Inr inches \<Rightarrow>
         (case float_of_int dpi of Inl e \<Rightarrow> Inl e | Inr d \<Rightarrow>
            py_round (float_mul inches d))))"

definition compute_target_canvas :: "int \<Rightarrow> int \<Rightarrow> int \<Rightarrow> error + (int \<times> int)" where
  "compute_target_canvas img_w img_h dpi =
     (if img_w \<ge> img_h then
        (case cm_to_px 15 dpi of Inl e \<Rightarrow> Inl e | Inr a \<Rightarrow>
          (case cm_to_px 10 dpi of Inl e \<Rightarrow> Inl e | Inr b \<Rightarrow> Inr (a, b)))
      else
        (case cm_to_px 10 dpi of Inl e \<Rightarrow> Inl e | Inr a \<Rightarrow>
          (case cm_to_px 15 dpi of Inl e \<Rightarrow> Inl e | Inr b \<Rightarrow> Inr (a, b))))"

text \<open>The same two functions as \<^verbatim>\<open>10x15_Photo_Formatter.py\<close> writes them (lines 29--45).\<close>

definition cm_to_px_script :: "int \<Rightarrow> int \<Rightarrow> error + int" where
  "cm_to_px_script cm dpi =
     (case float_of_int cm of Inl e \<Rightarrow> Inl e | Inr c \<Rightarrow>
       (case float_truediv c (to_double (254 / 100)) of Inl e \<Rightarrow> Inl e | Inr inches \<Rightarrow>
         (case float_of_int dpi of Inl e \<Rightarrow> Inl e | Inr d \<Rightarrow>
            py_round (float_mul inches d))))"

definition compute_target_canvas_script :: "int \<Rightarrow> int \<Rightarrow> int \<Rightarrow> error + (int \<times> int)" where
  "compute_target_canvas_script img_w img_h dpi =
     (if img_w \<ge> img_h then
        (case cm_to_px_script 15 dpi of Inl e \<Rightarrow> Inl e | Inr a \<Rightarrow>
          (case cm_to_px_script 10 dpi of Inl e \<Rightarrow> Inl e | Inr b \<Rightarrow> Inr (a, b)))
      else
        (case cm_to_px_script 10 dpi of Inl e \<Rightarrow> Inl e | Inr a \<Rightarrow>
          (case cm_to_px_script 15 dpi of Inl e \<Rightarrow> Inl e | Inr b \<Rightarrow> Inr (a, b))))"

text \<open>The physical canvases of the specification, and the pixel canvas of one of them.\<close>

datatype canvas_spec = Landscape | Portrait

fun width_cm :: "canvas_spec \<Rightarrow> int" where
  "width_cm Landscape = 15"
| "width_cm Portrait = 10"

fun height_cm :: "canvas_spec \<Rightarrow> int" where
  "height_cm Landscape = 10"
| "height_cm Portrait = 15"

definition pixel_canvas :: "canvas_spec \<Rightarrow> int \<Rightarrow> error + (int \<times> int)" where
  "pixel_canvas c dpi =
     (case cm_to_px (width_cm c) dpi of Inl e \<Rightarrow> Inl e | Inr a \<Rightarrow>
       (case cm_to_px (height_cm c) dpi of Inl e \<Rightarrow> Inl e | Inr b \<Rightarrow> Inr (a, b)))"

section \<open>Compositor: fitting an image on the canvas\<close>

text \<open>
  Of a PIL image the model keeps what \<^verbatim>\<open>fit_with_letterbox\<close> reads: the mode, the size,
  whether \<^verbatim>\<open>img.info\<close> has a \<^verbatim>\<open>"transparency"\<close> key, and the EXIF orientation tag
  (1 when the file has none). Pixel data is not modelled; the result records the
  geometry of the paste instead.
\<close>

record image =
  im_mode :: string
  im_size :: "int \<times> int"
  im_transparency :: bool
  im_orientation :: int

text \<open>\<^verbatim>\<open>ImageOps.exif_transpose\<close>: orientations 2 to 8 are undone and the tag removed;
  orientations 5 to 8 are the transposing ones, which swap width and height.\<close>

definition exif_transpose :: "image \<Rightarrow> image" where
  "exif_transpose img =
     (let (w, h) = im_size img; orientation = im_orientation img
      in if orientation \<in> {5, 6, 7, 8} then img\<lparr>im_size := (h, w), im_orientation := 1\<rparr>
         else if orientation \<in> {2, 3, 4} then img\<lparr>im_orientation := 1\<rparr>
         else img)"

definition convert :: "image \<Rightarrow> string \<Rightarrow> image" where
  "convert img m = img\<lparr>im_mode := m\<rparr>"

definition resize :: "image \<Rightarrow> int \<times> int \<Rightarrow> image" where
  "resize img sz = img\<lparr>im_size := sz\<rparr>"

text \<open>The returned canvas: an image of mode \<open>cv_mode\<close> and size \<open>cv_size\<close> filled with
  \<open>cv_bg\<close>, on which an image of size \<open>cv_pasted\<close> was pasted with its top-left corner at
  \<open>cv_offset\<close>, through its own alpha channel when \<open>cv_mask\<close> holds.\<close>

record canvas =
  cv_mode :: string
  cv_size :: "int \<times> int"
  cv_bg :: "int \<times> int \<times> int"
  cv_pasted :: "int \<times> int"
  cv_offset :: "int \<times> int"
  cv_mask :: bool

text \<open>\<^verbatim>\<open>src_w * scale\<close>: an int times a float.\<close>

definition int_mul_float :: "int \<Rightarrow> pyfloat \<Rightarrow> error + pyfloat" where
  "int_mul_float n x =
     (case float_of_int n of Inl e \<Rightarrow> Inl e | Inr a \<Rightarrow> Inr (float_mul a x))"

text \<open>
  \<^verbatim>\<open>fit_with_letterbox(img, target_w, target_h, bg_color)\<close>, statement by statement.
  \<^verbatim>\<open>Image.new\<close> refuses a negative width or height; \<^verbatim>\<open>resize\<close> and \<^verbatim>\<open>paste\<close> are taken to
  succeed.
\<close>

definition fit_with_letterbox ::
    "image \<Rightarrow> int \<Rightarrow> int \<Rightarrow> int \<times> int \<times> int \<Rightarrow> error + canvas" where
  "fit_with_letterbox img0 target_w target_h bg_color =
     (let img1 = exif_transpose img0;
          has_alpha = (im_mode img1 = ''RGBA'' \<or> im_mode img1 = ''LA'' \<or> im_transparency img1);
          img = (if has_alpha then convert img1 ''RGBA'' else convert img1 ''RGB'');
          (src_w, src_h) = im_size img
      in (case int_truediv target_w src_w of Inl e \<Rightarrow> Inl e | Inr sx \<Rightarrow>
         (case int_truediv target_h src_h of Inl e \<Rightarrow> Inl e | Inr sy \<Rightarrow>
         (let scale = float_min sx sy
          in (case int_mul_float src_w scale of Inl e \<Rightarrow> Inl e | Inr fw \<Rightarrow>
             (case py_floor fw of Inl e \<Rightarrow> Inl e | Inr iw \<Rightarrow>
             (let new_w = max 1 iw
              in (case int_mul_float src_h scale of Inl e \<Rightarrow> Inl e | Inr fh \<Rightarrow>
                 (case py_floor fh of Inl e \<Rightarrow> Inl e | Inr ih \<Rightarrow>
                 (let new_h = max 1 ih;
                      resized = resize img (new_w, new_h)
                  in if target_w < 0 \<or> target_h < 0
                     then Inl (ValueError ''Width and height must be >= 0'')
                     else (let off_x = (target_w - new_w) div 2;
                               off_y = (target_h - new_h) div 2
                           in Inr \<lparr>cv_mode = ''RGB'', cv_size = (target_w, target_h),
                                    cv_bg = bg_color, cv_pasted = im_size resized,
                                    cv_offset = (off_x, off_y),
                                    cv_mask = (im_mode resized = ''RGBA'')\<rparr>)))))))))))"

text \<open>\<^verbatim>\<open>fit_with_letterbox\<close> of \<^verbatim>\<open>10x15_Photo_Formatter.py\<close> (lines 48--81).\<close>

definition fit_with_letterbox_script ::
    "image \<Rightarrow> int \<Rightarrow> int \<Rightarrow> int \<times> int \<times> int \<Rightarrow> error + canvas" where
  "fit_with_letterbox_script img0 target_w target_h bg_color =
     (let img1 = exif_transpose img0;
          has_alpha = (im_mode img1 = ''RGBA'' \<or> im_mode img1 = ''LA'' \<or> im_transparency img1);
          img = (if has_alpha then convert img1 ''RGBA'' else convert img1 ''RGB'');
          (src_w, src_h) = im_size img
      in (case int_truediv target_w src_w of Inl e \<Rightarrow> Inl e | Inr sx \<Rightarrow>
         (case int_truediv target_h src_h of Inl e \<Rightarrow> Inl e | Inr sy \<Rightarrow>
         (let scale = float_min sx sy
          in (case int_mul_float src_w scale of Inl e \<Rightarrow> Inl e | Inr fw \<Rightarrow>
             (case py_floor fw of Inl e \<Rightarrow> Inl e | Inr iw \<Rightarrow>
             (let new_w = max 1 iw
              in (case int_mul_float src_h scale of Inl e \<Rightarrow> Inl e | Inr fh \<Rightarrow>
                 (case py_floor fh of Inl e \<Rightarrow> Inl e | Inr ih \<Rightarrow>
                 (let new_h = max 1 ih;
                      resized = resize img (new_w, new_h)
                  in if target_w < 0 \<or> target_h < 0
                     then Inl (ValueError ''Width and height must be >= 0'')
                     else (let off_x = (target_w - new_w) div 2;
                               off_y = (target_h - new_h) div 2
                           in Inr \<lparr>cv_mode = ''RGB'', cv_size = (target_w, target_h),
                                    cv_bg = bg_color, cv_pasted = im_size resized,
                                    cv_offset = (off_x, off_y),
                                    cv_mask = (im_mode resized = ''RGBA'')\<rparr>)))))))))))"

section \<open>Output names\<close>

text \<open>\<open>str_nat n\<close> is \<^verbatim>\<open>str(n)\<close>, the decimal digits an f-string writes for the counter
  (which starts at 1 and is only incremented, so it is a natural number).\<close>

definition digit_char :: "nat \<Rightarrow> char" where
  "digit_char d = ''0123456789'' ! d"

fun str_nat :: "nat \<Rightarrow> string" where
  "str_nat n = (if n < 10 then [digit_char n] else str_nat (n div 10) @ [digit_char (n mod 10)])"

declare str_nat.simps [simp del]

lemma digit_char_inj: "a < 10 \<Longrightarrow> b < 10 \<Longrightarrow> digit_char a = digit_char b \<Longrightarrow> a = b"
  unfolding digit_char_def by (subst (asm) nth_eq_iff_index_eq) simp_all

lemma str_nat_length: "1 \<le> length (str_nat n)"
  by (subst str_nat.simps) simp

lemma str_nat_inj: "str_nat n = str_nat m \<Longrightarrow> n = m"
proof (induction n arbitrary: m rule: str_nat.induct)
  case (1 n)
  show ?case
  proof (cases "n < 10")
    case True
    then have sn: "str_nat n = [digit_char n]" by (subst str_nat.simps) simp
    show ?thesis
    proof (cases "m < 10")
      case mt: True
      then have "str_nat m = [digit_char m]" by (subst str_nat.simps) simp
      with sn "1.prems" have "digit_char n = digit_char m" by simp
      with True mt show ?thesis by (rule digit_char_inj)
    next
      case False
      then have "str_nat m = str_nat (m div 10) @ [digit_char (m mod 10)]"
        by (subst str_nat.simps) simp
      with sn "1.prems" have "length (str_nat (m div 10)) = 0" by (metis append_is_Nil_conv butlast_snoc list.size(3) butlast.simps(2))
      with str_nat_length [of "m div 10"] show ?thesis by simp
    qed
  next
    case False
    then have sn: "str_nat n = str_nat (n div 10) @ [digit_char (n mod 10)]"
      by (subst str_nat.simps) simp
    show ?thesis
    proof (cases "m < 10")
      case True
      then have "str_nat m = [digit_char m]" by (subst str_nat.simps) simp
      with sn "1.prems" have "length (str_nat (n div 10)) = 0" by (metis append_is_Nil_conv butlast_snoc list.size(3) butlast.simps(2))
      with str_nat_length [of "n div 10"] show ?thesis by simp
    next
      case mf: False
      then have sm: "str_nat m = str_nat (m div 10) @ [digit_char (m mod 10)]"
        by (subst str_nat.simps) simp
      from sn sm "1.prems" have e1: "str_nat (n div 10) = str_nat (m div 10)"
        and e2: "digit_char (n mod 10) = digit_char (m mod 10)" by auto
      from "1.IH" [OF False e1] have d: "n div 10 = m div 10" .
      have "n mod 10 = m mod 10" by (rule digit_char_inj [OF _ _ e2]) auto
      with d show ?thesis by (metis div_mult_mod_eq)
    qed
  qed
qed

text \<open>
  The destination directory is the list of its entries, name and content; the content of
  an output file is the JPEG of a canvas with its DPI tag, or a truncated file.
  \<open>path_exists d name\<close> is \<^verbatim>\<open>(out_dir / name).exists()\<close>.
\<close>

datatype file_content = Jpeg canvas int | Truncated

type_synonym directory = "(string \<times> file_content) list"

definition path_exists :: "directory \<Rightarrow> string \<Rightarrow> bool" where
  "path_exists d name = (name \<in> fst ` set d)"

text \<open>The two f-strings: \<^verbatim>\<open>f"{base}_10x15.jpg"\<close> and \<^verbatim>\<open>f"{base}_10x15_{counter}.jpg"\<close>.\<close>

definition first_name :: "string \<Rightarrow> string" where
  "first_name base = base @ ''_10x15.jpg''"

definition numbered_name :: "string \<Rightarrow> nat \<Rightarrow> string" where
  "numbered_name base counter = base @ ''_10x15_'' @ str_nat counter @ ''.jpg''"

lemma numbered_name_inj: "numbered_name base j = numbered_name base k \<Longrightarrow> j = k"
  by (simp add: numbered_name_def str_nat_inj)

lemma finite_numbered: "finite {k. path_exists d (numbered_name base k)}"
proof -
  have "inj (numbered_name base)" by (rule injI) (rule numbered_name_inj)
  then have "finite (numbered_name base -` (fst ` set d))"
    by (intro finite_vimageI) simp_all
  then show ?thesis by (simp add: path_exists_def vimage_def)
qed

definition taken_from :: "directory \<Rightarrow> string \<Rightarrow> nat \<Rightarrow> nat set" where
  "taken_from d base counter = {k. counter \<le> k \<and> path_exists d (numbered_name base k)}"

lemma finite_taken_from: "finite (taken_from d base counter)"
  unfolding taken_from_def by (rule finite_subset [OF _ finite_numbered [of d base]]) auto

lemma taken_from_step:
  "taken_from d base counter =
     (if path_exists d (numbered_name base counter) then {counter} else {})
     \<union> taken_from d base (Suc counter)"
  unfolding taken_from_def by (auto simp: Suc_le_eq le_less)

lemma card_taken_from:
  "card (taken_from d base counter) =
     (if path_exists d (numbered_name base counter) then 1 else 0)
     + card (taken_from d base (Suc counter))"
proof -
  have "counter \<notin> taken_from d base (Suc counter)" by (simp add: taken_from_def)
  then show ?thesis
    by (subst taken_from_step) (simp add: finite_taken_from)
qed

text \<open>
  The loop \<^verbatim>\<open>while dest.exists(): dest = out_dir / f"{base}_10x15_{counter}.jpg"; counter += 1\<close>
  (lines 290--292). It terminates because the directory has finitely many entries and
  the numbered names are pairwise different.
\<close>

function probe :: "directory \<Rightarrow> string \<Rightarrow> string \<Rightarrow> nat \<Rightarrow> string" where
  "probe out_dir base dest counter =
     (if path_exists out_dir dest
      then probe out_dir base (numbered_name base counter) (counter + 1)
      else dest)"
  by pat_completeness auto
termination
proof (relation "measure (\<lambda>(d, base, dest, counter).
        (if path_exists d dest then 1 else 0) + card (taken_from d base counter))")
  show "wf (measure (\<lambda>(d, base, dest, counter).
        (if path_exists d dest then 1 else 0) + card (taken_from d base counter)))"
    by simp
next
  fix out_dir :: directory and base dest :: string and counter :: nat
  assume "path_exists out_dir dest"
  then show "((out_dir, base, numbered_name base counter, counter + 1),
              (out_dir, base, dest, counter))
             \<in> measure (\<lambda>(d, base, dest, counter).
                 (if path_exists d dest then 1 else 0) + card (taken_from d base counter))"
    using card_taken_from [of out_dir base counter] by simp
qed

declare probe.simps [simp del]

definition next_available_name :: "directory \<Rightarrow> string \<Rightarrow> string" where
  "next_available_name out_dir base = probe out_dir base (first_name base) 1"

section \<open>Batch driver\<close>

text \<open>
  A file found by \<^verbatim>\<open>in_dir.rglob("*")\<close>: its stem and suffix (\<^verbatim>\<open>f.name\<close> is the two joined),
  and what the image library does with it. \<open>sf_open\<close> is the result of \<^verbatim>\<open>Image.open(f)\<close>
  and of the decoding that the first \<^verbatim>\<open>exif_transpose\<close> triggers: the image, or the
  exception raised for an unreadable, unidentified or truncated file. \<open>sf_save\<close> is what
  \<^verbatim>\<open>canvas.save(dest, ...)\<close> does once it is reached: it writes the file, or it raises, and
  then \<open>SaveRaises e left\<close> tells whether the call left a file at \<open>dest\<close>. The scripts pass
  the final path to \<^verbatim>\<open>save\<close>; neither writes to a temporary name first.
\<close>

datatype save_outcome = Saved | SaveRaises error bool

record source_file =
  sf_stem :: string
  sf_suffix :: string
  sf_open :: "error + image"
  sf_save :: save_outcome

definition file_name :: "source_file \<Rightarrow> string" where
  "file_name f = sf_stem f @ sf_suffix f"

text \<open>\<^verbatim>\<open>str.lower()\<close>, on the ASCII letters (no other character lowers to a letter of the
  extensions below).\<close>

definition lower_char :: "char \<Rightarrow> char" where
  "lower_char c =
     (case map_of (zip ''ABCDEFGHIJKLMNOPQRSTUVWXYZ'' ''abcdefghijklmnopqrstuvwxyz'') c of
        Some l \<Rightarrow> l
      | None \<Rightarrow> c)"

definition lower :: "string \<Rightarrow> string" where
  "lower s = map lower_char s"

definition SUPPORTED_EXTS :: "string set" where
  "SUPPORTED_EXTS = {''.jpg'', ''.jpeg'', ''.png'', ''.heic'', ''.heif'', ''.webp''}"

text \<open>
  What a run of \<^verbatim>\<open>process_all\<close> reads and writes: the status line, the progress bar, the
  log view, the three counters of \<^verbatim>\<open>stats\<close>, and the content of the output directory.
\<close>

record run =
  status_var :: string
  progress_maximum :: nat
  progress_value :: nat
  log_lines :: "string list"
  stats_ok :: nat
  stats_skip :: nat
  stats_err :: nat
  out_dir :: directory

text \<open>
  The body of the \<^verbatim>\<open>try\<close> block up to and including \<^verbatim>\<open>canvas.save\<close> (lines 277--299): the
  new content of the output directory, and the exception raised or the path written.
\<close>

definition convert_file :: "int \<Rightarrow> directory \<Rightarrow> source_file \<Rightarrow> directory \<times> (error + string)" where
  "convert_file dpi d f =
     (case sf_open f of Inl e \<Rightarrow> (d, Inl e) | Inr im0 \<Rightarrow>
       (let im = exif_transpose im0;
            (w, h) = im_size im
        in (case compute_target_canvas w h dpi of Inl e \<Rightarrow> (d, Inl e) | Inr (tw, th) \<Rightarrow>
             (case fit_with_letterbox im tw th (255, 255, 255) of Inl e \<Rightarrow> (d, Inl e)
              | Inr canvas \<Rightarrow>
                 (let dest = next_available_name d (sf_stem f)
                  in (case sf_save f of
                        Saved \<Rightarrow> ((dest, Jpeg canvas dpi) # d, Inr dest)
                      | SaveRaises e left \<Rightarrow>
                          ((if left then (dest, Truncated) # d else d), Inl e)))))))"

text \<open>One iteration of the loop after the check of the stop flag (lines 270--308), for
  the file with 1-based index \<open>idx\<close>.\<close>

definition process_file :: "bool \<Rightarrow> int \<Rightarrow> nat \<Rightarrow> nat \<Rightarrow> source_file \<Rightarrow> run \<Rightarrow> run" where
  "process_file heif_ok dpi total_n idx f s =
     (if lower (sf_suffix f) \<in> {''.heic'', ''.heif''} \<and> \<not> heif_ok then
        s\<lparr>log_lines := log_lines s @ [''SKIP (HEIC missing): '' @ file_name f],
          stats_skip := stats_skip s + 1,
          progress_value := idx\<rparr>
      else
        (let s1 =
           (case convert_file dpi (out_dir s) f of
              (d, Inr dest) \<Rightarrow>
                s\<lparr>out_dir := d,
                  log_lines := log_lines s @ [''OK: '' @ file_name f],
                  stats_ok := stats_ok s + 1\<rparr>
            | (d, Inl e) \<Rightarrow>
                s\<lparr>out_dir := d,
                  stats_err := stats_err s + 1,
                  log_lines := log_lines s @ [''ERR: '' @ file_name f @ '' - '' @ str_error e]\<rparr>)
         in s1\<lparr>progress_value := idx,
               status_var := ''Processing: '' @ str_nat idx @ ''/'' @ str_nat total_n
                 @ '' (Errors: '' @ str_nat (stats_err s1) @ '')''\<rparr>))"

text \<open>
  The \<^verbatim>\<open>for\<close> loop. \<open>stop_flag k\<close> is the value the worker reads from \<^verbatim>\<open>self.stop_flag\<close> when
  \<open>k\<close> files have been handled: at the head of the iteration for the next file and,
  after the loop, for \<^verbatim>\<open>final_msg\<close>. The attribute is set by the Stop button on another
  thread, so the values read are an input of the model. The loop returns the number of
  files handled and the state.
\<close>

fun process_loop ::
    "bool \<Rightarrow> int \<Rightarrow> (nat \<Rightarrow> bool) \<Rightarrow> nat \<Rightarrow> nat \<Rightarrow> source_file list \<Rightarrow> run \<Rightarrow> nat \<times> run" where
  "process_loop heif_ok dpi stop_flag total_n i [] s = (i, s)"
| "process_loop heif_ok dpi stop_flag total_n i (f # fs) s =
     (if stop_flag i then (i, s)
      else process_loop heif_ok dpi stop_flag total_n (i + 1) fs
             (process_file heif_ok dpi total_n (i + 1) f s))"

text \<open>\<^verbatim>\<open>process_all(self, in_dir, out_dir, dpi)\<close> of \<^verbatim>\<open>photo_formatter.py\<close>; \<open>in_dir\<close> is the
  list of regular files under the input directory in the order \<^verbatim>\<open>rglob\<close> yields them.\<close>

definition process_all ::
    "bool \<Rightarrow> (nat \<Rightarrow> bool) \<Rightarrow> source_file list \<Rightarrow> int \<Rightarrow> run \<Rightarrow> run" where
  "process_all heif_ok stop_flag in_dir dpi s =
     (let files = filter (\<lambda>p. lower (sf_suffix p) \<in> SUPPORTED_EXTS) in_dir;
          total_n = length files
      in if total_n = 0 then s\<lparr>status_var := ''No supported images found.''\<rparr>
         else
           (let s0 = s\<lparr>progress_maximum := total_n, progress_value := 0,
                       status_var := ''Found '' @ str_nat total_n @ '' images...'',
                       stats_ok := 0, stats_skip := 0, stats_err := 0\<rparr>;
                (n, s1) = process_loop heif_ok dpi stop_flag total_n 0 files s0;
                final_msg = (if \<not> stop_flag n then ''Done.'' else ''Stopped.'')
            in s1\<lparr>status_var := final_msg @ '' Processed: '' @ str_nat (stats_ok s1)
                   @ '', Skipped: '' @ str_nat (stats_skip s1)
                   @ '', Errors: '' @ str_nat (stats_err s1)\<rparr>))"

section \<open>Facts about binary64 rounding\<close>

subsection \<open>Bit length and binade\<close>

lemma bit_length_pos: "0 < n \<Longrightarrow> 1 \<le> bit_length n"
  by (induction n rule: bit_length.induct) (subst bit_length.simps, auto simp: bit_length.simps)

lemma bit_length_bounds:
  "0 < n \<Longrightarrow> 2 ^ nat (bit_length n - 1) \<le> n \<and> n < 2 ^ nat (bit_length n)"
proof (induction n rule: bit_length.induct)
  case (1 n)
  show ?case
  proof (cases "n = 1")
    case True
    have "bit_length 1 = 1" by (simp add: bit_length.simps)
    with True show ?thesis by simp
  next
    case False
    with "1.prems" have h: "0 < n div 2" by simp
    from "1.IH" h "1.prems"
    have ih: "2 ^ nat (bit_length (n div 2) - 1) \<le> n div 2"
      "n div 2 < 2 ^ nat (bit_length (n div 2))"
      by auto
    have bl: "bit_length n = bit_length (n div 2) + 1"
      using "1.prems" by (subst bit_length.simps) simp
    have p: "1 \<le> bit_length (n div 2)" using h by (rule bit_length_pos)
    have e1: "nat (bit_length n - 1) = Suc (nat (bit_length (n div 2) - 1))"
      using bl p by simp
    have e2: "nat (bit_length n) = Suc (nat (bit_length (n div 2)))"
      using bl p by simp
    show ?thesis unfolding e1 e2 using ih by simp linarith
  qed
qed

lemma powi2_less_D: "(2::rat) powi a < 2 powi b \<Longrightarrow> a < b"
proof (rule ccontr)
  assume lt: "(2::rat) powi a < 2 powi b" and "\<not> a < b"
  then have "b \<le> a" by simp
  then have "(2::rat) powi b \<le> 2 powi a" by (rule power_int_increasing) simp
  with lt show False by simp
qed

lemma bit_length_powi:
  assumes "0 < n"
  shows "2 powi (bit_length n - 1) \<le> (of_int n :: rat)"
    and "(of_int n :: rat) < 2 powi bit_length n"
proof -
  from bit_length_bounds [OF assms]
  have a: "2 ^ nat (bit_length n - 1) \<le> n" and b: "n < 2 ^ nat (bit_length n)" by auto
  have p: "1 \<le> bit_length n" using assms by (rule bit_length_pos)
  have "(of_int (2 ^ nat (bit_length n - 1)) :: rat) \<le> of_int n"
    using a by (simp only: of_int_le_iff)
  then show "2 powi (bit_length n - 1) \<le> (of_int n :: rat)"
    using p by (simp add: power_int_nonneg_exp)
  have "(of_int n :: rat) < of_int (2 ^ nat (bit_length n))"
    using b by (simp only: of_int_less_iff)
  then show "(of_int n :: rat) < 2 powi bit_length n"
    using p by (simp add: power_int_nonneg_exp)
qed

lemma binade_bounds:
  assumes "x \<noteq> 0"
  shows "2 powi binade x \<le> \<bar>x\<bar>" and "\<bar>x\<bar> < 2 powi (binade x + 1)"
proof -
  obtain a b where q: "quotient_of \<bar>x\<bar> = (a, b)" by (cases "quotient_of \<bar>x\<bar>")
  have b0: "0 < b" using q by (rule quotient_of_denom_pos)
  have xe: "\<bar>x\<bar> = of_int a / of_int b" using q by (rule quotient_of_div)
  have xpos: "0 < \<bar>x\<bar>" using assms by simp
  have a0: "0 < a"
    using xpos b0 unfolding xe by (simp add: zero_less_divide_iff)
  define k where "k = bit_length a - bit_length b"
  have bd: "binade x = (if 2 powi k \<le> \<bar>x\<bar> then k else k - 1)"
    by (simp add: binade_def q k_def Let_def)
  note A = bit_length_powi [OF a0] and B = bit_length_powi [OF b0]
  have b0r: "(0::rat) < of_int b" using b0 by simp
  have up: "\<bar>x\<bar> < 2 powi (k + 1)"
  proof -
    have "of_int a < (2::rat) powi bit_length a" by (rule A)
    also have "\<dots> = 2 powi (k + 1) * 2 powi (bit_length b - 1)"
      by (simp add: k_def flip: power_int_add)
    also have "\<dots> \<le> 2 powi (k + 1) * of_int b"
      by (rule mult_left_mono [OF B(1)]) simp
    finally show ?thesis unfolding xe using b0r by (simp add: divide_less_eq)
  qed
  have lo: "2 powi (k - 1) \<le> \<bar>x\<bar>"
  proof -
    have "2 powi (k - 1) * of_int b \<le> 2 powi (k - 1) * (2::rat) powi bit_length b"
      by (rule mult_left_mono) (use B(2) in auto)
    also have "\<dots> = 2 powi (bit_length a - 1)"
      by (simp add: k_def flip: power_int_add)
    also have "\<dots> \<le> of_int a" by (rule A)
    finally show ?thesis unfolding xe using b0r by (simp add: le_divide_eq)
  qed
  show "2 powi binade x \<le> \<bar>x\<bar>" using lo by (simp add: bd)
  show "\<bar>x\<bar> < 2 powi (binade x + 1)" using up by (auto simp: bd not_le)
qed

lemma binade_unique:
  assumes "2 powi e \<le> \<bar>x\<bar>" "\<bar>x\<bar> < 2 powi (e + 1)"
  shows "binade x = e"
proof -
  have x0: "x \<noteq> 0"
  proof
    assume "x = 0"
    with assms(1) have "(2::rat) powi e \<le> 0" by simp
    moreover have "(0::rat) < 2 powi e" by simp
    ultimately show False by linarith
  qed
  note b = binade_bounds [OF x0]
  have "(2::rat) powi binade x < 2 powi (e + 1)" using b(1) assms(2) by simp
  then have 1: "binade x < e + 1" by (rule powi2_less_D)
  have "(2::rat) powi e < 2 powi (binade x + 1)" using b(2) assms(1) by simp
  then have 2: "e < binade x + 1" by (rule powi2_less_D)
  from 1 2 show ?thesis by simp
qed

lemma binade_minus [simp]: "binade (- x) = binade x"
  by (simp add: binade_def)

lemma binade_mono:
  assumes "x \<noteq> 0" "\<bar>x\<bar> \<le> \<bar>y\<bar>"
  shows "binade x \<le> binade y"
proof -
  from assms have y0: "y \<noteq> 0" by auto
  have "(2::rat) powi binade x \<le> \<bar>x\<bar>" using assms(1) by (rule binade_bounds)
  also have "\<dots> \<le> \<bar>y\<bar>" by fact
  also have "\<dots> < 2 powi (binade y + 1)" using y0 by (rule binade_bounds)
  finally have "(2::rat) powi binade x < 2 powi (binade y + 1)" .
  then have "binade x < binade y + 1" by (rule powi2_less_D)
  then show ?thesis by simp
qed

subsection \<open>Rounding to an integer\<close>

lemma rhe_floor_cases:
  "round_half_even x = \<lfloor>x\<rfloor> \<or> round_half_even x = \<lfloor>x\<rfloor> + 1"
  by (simp add: round_half_even_def Let_def)

lemma rhe_error: "\<bar>of_int (round_half_even x) - x\<bar> \<le> 1 / 2"
proof -
  have "of_int \<lfloor>x\<rfloor> \<le> x" "x < of_int \<lfloor>x\<rfloor> + 1" by linarith+
  then show ?thesis
    unfolding round_half_even_def Let_def by (auto simp: abs_le_iff)
qed

lemma rhe_of_int [simp]: "round_half_even (of_int n) = n"
  by (simp add: round_half_even_def)

lemma rhe_mono: "x \<le> y \<Longrightarrow> round_half_even x \<le> round_half_even y"
proof -
  assume xy: "x \<le> y"
  then have fl: "\<lfloor>x\<rfloor> \<le> \<lfloor>y\<rfloor>" by (rule floor_mono)
  show ?thesis
  proof (cases "\<lfloor>x\<rfloor> = \<lfloor>y\<rfloor>")
    case True
    with xy show ?thesis
      unfolding round_half_even_def Let_def by auto
  next
    case False
    with fl have "\<lfloor>x\<rfloor> + 1 \<le> \<lfloor>y\<rfloor>" by simp
    moreover have "round_half_even x \<le> \<lfloor>x\<rfloor> + 1"
      using rhe_floor_cases [of x] by auto
    moreover have "\<lfloor>y\<rfloor> \<le> round_half_even y"
      using rhe_floor_cases [of y] by auto
    ultimately show ?thesis by linarith
  qed
qed

lemma rhe_minus: "round_half_even (- x) = - round_half_even x"
proof (cases "x = of_int \<lfloor>x\<rfloor>")
  case True
  then have "- x = of_int (- \<lfloor>x\<rfloor>)" by simp
  then have "round_half_even (- x) = - \<lfloor>x\<rfloor>" by (simp only: rhe_of_int)
  moreover have "round_half_even x = \<lfloor>x\<rfloor>" using True rhe_of_int by metis
  ultimately show ?thesis by simp
next
  case False
  have b: "of_int \<lfloor>x\<rfloor> \<le> x" "x < of_int \<lfloor>x\<rfloor> + 1" by linarith+
  have lt: "of_int \<lfloor>x\<rfloor> < x"
    by (rule order.not_eq_order_implies_strict [OF _ of_int_floor_le]) (use False in auto)
  have fm: "\<lfloor>- x\<rfloor> = - \<lfloor>x\<rfloor> - 1"
    by (rule floor_unique) (use b lt in auto)
  have ev: "even (- \<lfloor>x\<rfloor> - 1) \<longleftrightarrow> odd \<lfloor>x\<rfloor>" by simp
  show ?thesis
    unfolding round_half_even_def Let_def fm ev using b lt
    by (auto simp: field_simps)
qed

lemma rhe_unique:
  assumes "\<bar>of_int r - x\<bar> < 1 / 2"
  shows "round_half_even x = r"
proof -
  have "\<bar>of_int (round_half_even x) - x\<bar> \<le> 1 / 2" by (rule rhe_error)
  with assms have "\<bar>(of_int (round_half_even x) :: rat) - of_int r\<bar> < 1" by linarith
  then have "\<bar>(of_int (round_half_even x - r) :: rat)\<bar> < of_int 1" by simp
  then have "\<bar>round_half_even x - r\<bar> < 1"
    by (simp only: of_int_abs [symmetric] of_int_less_iff)
  then show ?thesis by simp
qed

subsection \<open>Rounding to binary64\<close>

definition ulp :: "rat \<Rightarrow> rat" where
  "ulp x = 2 powi (max (binade x) (- 1022) - 52)"

lemma ulp_pos [simp]: "0 < ulp x"
  by (simp add: ulp_def)

lemma ulp_neq0 [simp]: "ulp x \<noteq> 0"
  by (simp add: ulp_def)

lemma ulp_minus [simp]: "ulp (- x) = ulp x"
  by (simp add: ulp_def)

lemma fl_ulp: "fl x = (if x = 0 then 0 else of_int (round_half_even (x / ulp x)) * ulp x)"
  by (simp add: fl_def ulp_def Let_def)

lemma fl_0 [simp]: "fl 0 = 0"
  by (simp add: fl_def)

lemma fl_minus: "fl (- x) = - fl x"
  by (simp add: fl_ulp rhe_minus)


lemma fl_nonneg: "0 \<le> x \<Longrightarrow> 0 \<le> fl x"
proof -
  assume "0 \<le> x"
  then have "0 \<le> x / ulp x" by (simp add: less_imp_le)
  then have "round_half_even (of_int 0) \<le> round_half_even (x / ulp x)"
    by (intro rhe_mono) simp
  then have "0 \<le> round_half_even (x / ulp x)" by (simp only: rhe_of_int)
  then show ?thesis by (simp add: fl_ulp less_imp_le)
qed

lemma fl_le_pow2:
  assumes "0 < x" "x \<le> 2 powi k" "- 1022 \<le> k"
  shows "fl x \<le> 2 powi k"
proof -
  define e where "e = max (binade x) (- 1022)"
  have x0: "x \<noteq> 0" using assms by simp
  have u: "ulp x = 2 powi (e - 52)" by (simp add: ulp_def e_def)
  have "(2::rat) powi binade x \<le> \<bar>x\<bar>" using x0 by (rule binade_bounds)
  also have "\<dots> < 2 powi (k + 1)"
    using assms(1,2) power_int_strict_increasing [of k "k + 1" "2::rat"] by simp
  finally have "binade x < k + 1" by (rule powi2_less_D)
  then have ek: "e \<le> k" using assms(3) by (simp add: e_def)
  have q: "(2::rat) powi k / ulp x = of_int (2 ^ nat (k - e + 52))"
  proof -
    have "(2::rat) powi k / ulp x = 2 powi (k - (e - 52))"
      unfolding u by (simp add: power_int_diff)
    also have "\<dots> = 2 ^ nat (k - e + 52)"
      using ek by (simp add: power_int_nonneg_exp algebra_simps)
    finally show ?thesis by simp
  qed
  have "x / ulp x \<le> 2 powi k / ulp x"
    using assms(2) by (simp add: divide_right_mono less_imp_le)
  then have "round_half_even (x / ulp x) \<le> round_half_even (2 powi k / ulp x)"
    by (rule rhe_mono)
  then have "round_half_even (x / ulp x) \<le> 2 ^ nat (k - e + 52)"
    unfolding q by (simp only: rhe_of_int)
  then have "(of_int (round_half_even (x / ulp x)) :: rat) \<le> of_int (2 ^ nat (k - e + 52))"
    by (simp only: of_int_le_iff)
  then have "of_int (round_half_even (x / ulp x)) * ulp x \<le> (2 powi k / ulp x) * ulp x"
    unfolding q by (rule mult_right_mono) (simp add: less_imp_le)
  then show ?thesis using x0 by (simp add: fl_ulp)
qed

lemma fl_ge_binade:
  assumes "0 < x" "- 1022 \<le> binade x"
  shows "2 powi binade x \<le> fl x"
proof -
  have x0: "x \<noteq> 0" using assms by simp
  have u: "ulp x = 2 powi (binade x - 52)" using assms(2) by (simp add: ulp_def max_def)
  have q: "(2::rat) powi binade x / ulp x = of_int (2 ^ 52)"
    unfolding u by (simp add: power_int_diff)
  have "(2::rat) powi binade x \<le> \<bar>x\<bar>" using x0 by (rule binade_bounds)
  then have "(2::rat) powi binade x \<le> x" using assms(1) by simp
  then have "2 powi binade x / ulp x \<le> x / ulp x"
    by (simp add: divide_right_mono less_imp_le)
  then have "round_half_even (2 powi binade x / ulp x) \<le> round_half_even (x / ulp x)"
    by (rule rhe_mono)
  then have "2 ^ 52 \<le> round_half_even (x / ulp x)"
    unfolding q by (simp only: rhe_of_int)
  then have "(of_int (2 ^ 52) :: rat) \<le> of_int (round_half_even (x / ulp x))"
    by (simp only: of_int_le_iff)
  then have "(2 powi binade x / ulp x) * ulp x \<le> of_int (round_half_even (x / ulp x)) * ulp x"
    unfolding q by (rule mult_right_mono) (simp add: less_imp_le)
  then show ?thesis using x0 by (simp add: fl_ulp)
qed

lemma fl_mono_pos:
  assumes "0 < x" "x \<le> y"
  shows "fl x \<le> fl y"
proof -
  define ex where "ex = max (binade x) (- 1022)"
  define ey where "ey = max (binade y) (- 1022)"
  have x0: "x \<noteq> 0" and y0: "y \<noteq> 0" and ypos: "0 < y" using assms by auto
  have "binade x \<le> binade y" using x0 assms by (intro binade_mono) auto
  then have le: "ex \<le> ey" by (simp add: ex_def ey_def)
  show ?thesis
  proof (cases "ex = ey")
    case True
    then have u: "ulp x = ulp y" by (simp add: ulp_def ex_def ey_def)
    have "x / ulp y \<le> y / ulp y" using assms(2) by (simp add: divide_right_mono less_imp_le)
    then have "round_half_even (x / ulp y) \<le> round_half_even (y / ulp y)" by (rule rhe_mono)
    then have "(of_int (round_half_even (x / ulp y)) :: rat)
        \<le> of_int (round_half_even (y / ulp y))"
      by (simp only: of_int_le_iff)
    then have "of_int (round_half_even (x / ulp y)) * ulp y
        \<le> of_int (round_half_even (y / ulp y)) * ulp y"
      by (rule mult_right_mono) (simp add: less_imp_le)
    then show ?thesis using x0 y0 by (simp add: fl_ulp u)
  next
    case False
    with le have lt: "ex < ey" by simp
    then have bey: "binade y = ey" and ge: "- 1022 \<le> binade y"
      by (auto simp: ex_def ey_def max_def split: if_splits)
    have "\<bar>x\<bar> < 2 powi (binade x + 1)" using x0 by (rule binade_bounds)
    also have "\<dots> \<le> 2 powi (ex + 1)"
      by (rule power_int_increasing) (simp_all add: ex_def)
    finally have "x \<le> 2 powi (ex + 1)" using assms(1) by simp
    with assms(1) have "fl x \<le> 2 powi (ex + 1)"
      by (rule fl_le_pow2) (simp add: ex_def)
    also have "\<dots> \<le> 2 powi ey"
      by (rule power_int_increasing) (use lt in simp_all)
    also have "\<dots> \<le> fl y"
      using fl_ge_binade [OF ypos ge] by (simp add: bey)
    finally show ?thesis .
  qed
qed

lemma fl_mono: "x \<le> y \<Longrightarrow> fl x \<le> fl y"
proof -
  assume xy: "x \<le> y"
  consider "0 < x" | "x \<le> 0" "0 \<le> y" | "y < 0" by linarith
  then show ?thesis
  proof cases
    case 1
    then show ?thesis using xy by (rule fl_mono_pos)
  next
    case 2
    have "fl x \<le> 0" using fl_nonneg [of "- x"] 2(1) by (simp add: fl_minus)
    moreover have "0 \<le> fl y" using 2(2) by (rule fl_nonneg)
    ultimately show ?thesis by simp
  next
    case 3
    then have "fl (- y) \<le> fl (- x)" using xy by (intro fl_mono_pos) auto
    then show ?thesis by (simp add: fl_minus)
  qed
qed


lemma fl_of_int:
  assumes "\<bar>n\<bar> < 2 ^ 53"
  shows "fl (of_int n) = of_int n"
proof (cases "n = 0")
  case True
  then show ?thesis by simp
next
  case False
  define x :: rat where "x = of_int n"
  have x0: "x \<noteq> 0" using False by (simp add: x_def)
  have ax: "\<bar>x\<bar> = of_int \<bar>n\<bar>" by (simp add: x_def)
  have "(2::rat) powi 0 \<le> \<bar>x\<bar>"
    using False unfolding ax by (simp add: of_int_le_iff [symmetric] del: of_int_le_iff)
  also have "\<dots> < 2 powi (binade x + 1)" using x0 by (rule binade_bounds)
  finally have b0: "0 \<le> binade x" using powi2_less_D by fastforce
  have "(2::rat) powi binade x \<le> \<bar>x\<bar>" using x0 by (rule binade_bounds)
  also have "\<dots> < 2 powi 53"
    unfolding ax using assms by (simp add: of_int_less_iff [symmetric] del: of_int_less_iff)
  finally have b53: "binade x < 53" by (rule powi2_less_D)
  have u: "ulp x = 2 powi (binade x - 52)" using b0 by (simp add: ulp_def max_def)
  have "1 / ulp x = 2 powi (52 - binade x)"
    unfolding u by (simp add: power_int_diff)
  also have "\<dots> = of_int (2 ^ nat (52 - binade x))"
    using b53 by (simp add: power_int_nonneg_exp)
  finally have iq: "x / ulp x = of_int (n * 2 ^ nat (52 - binade x))"
    by (simp add: x_def divide_inverse)
  then have "round_half_even (x / ulp x) = n * 2 ^ nat (52 - binade x)"
    by (simp only: rhe_of_int)
  then have "of_int (round_half_even (x / ulp x)) * ulp x = (x / ulp x) * ulp x"
    using iq by simp
  then show ?thesis using x0 by (simp add: fl_ulp x_def)
qed

text \<open>Evaluating \<open>fl\<close> at a number whose binade is known.\<close>

lemma fl_check:
  assumes "2 powi e \<le> \<bar>x\<bar>" "\<bar>x\<bar> < 2 powi (e + 1)" "- 1022 \<le> e"
    and "\<bar>of_int m - x / 2 powi (e - 52)\<bar> < 1 / 2"
  shows "fl x = of_int m * 2 powi (e - 52)"
proof -
  have b: "binade x = e" using assms(1,2) by (rule binade_unique)
  have x0: "x \<noteq> 0"
  proof
    assume "x = 0"
    with assms(1) have "(2::rat) powi e \<le> 0" by simp
    moreover have "(0::rat) < 2 powi e" by simp
    ultimately show False by linarith
  qed
  have "round_half_even (x / 2 powi (e - 52)) = m" using assms(4) by (rule rhe_unique)
  then show ?thesis using x0 assms(3) by (simp add: fl_ulp ulp_def b max_def)
qed

lemma fl_abs_le_pow2:
  assumes "\<bar>x\<bar> \<le> 2 powi k" "- 1022 \<le> k"
  shows "\<bar>fl x\<bar> \<le> 2 powi k"
proof -
  consider "0 < x" | "x = 0" | "x < 0" by linarith
  then show ?thesis
  proof cases
    case 1
    then have "fl x \<le> 2 powi k" using assms by (intro fl_le_pow2) auto
    moreover have "0 \<le> fl x" using 1 by (intro fl_nonneg) simp
    ultimately show ?thesis by simp
  next
    case 2
    then show ?thesis by simp
  next
    case 3
    then have "fl (- x) \<le> 2 powi k" using assms by (intro fl_le_pow2) auto
    moreover have "0 \<le> fl (- x)" using 3 by (intro fl_nonneg) simp
    ultimately show ?thesis by (simp add: fl_minus)
  qed
qed


lemma lit_254: "fl (254 / 100) = 2859785763380265 / 1125899906842624"
  using fl_check [of 1 "254 / 100" 5719571526760530] by simp

lemma inches_15: "fl (15 / (2859785763380265 / 1125899906842624)) = 831126899736189 / 140737488355328"
  using fl_check [of 2 "15 / (2859785763380265 / 1125899906842624)" 6649015197889512] by simp

lemma inches_10: "fl (10 / (2859785763380265 / 1125899906842624)) = 277042299912063 / 70368744177664"
  using fl_check [of 1 "10 / (2859785763380265 / 1125899906842624)" 8865353597186016] by simp

lemma px_15_300: "fl (831126899736189 / 140737488355328 * 300) = 1947953671256693 / 1099511627776"
  using fl_check [of 10 "831126899736189 / 140737488355328 * 300" 7791814685026772] by simp

lemma px_10_300: "fl (277042299912063 / 70368744177664 * 300) = 5194543123351181 / 4398046511104"
  using fl_check [of 10 "277042299912063 / 70368744177664 * 300" 5194543123351181] by simp

subsection \<open>The operations on small operands\<close>

lemma to_double_eq: "fl x = y \<Longrightarrow> \<bar>y\<bar> < 2 ^ 1024 \<Longrightarrow> to_double x = Finite y"
  by (auto simp: to_double_def Let_def abs_less_iff)

lemma of_int_abs_le_powi:
  fixes n :: int
  assumes "\<bar>n\<bar> \<le> 2 ^ k"
  shows "\<bar>of_int n :: rat\<bar> \<le> 2 powi (int k)"
proof -
  have "(of_int \<bar>n\<bar> :: rat) \<le> of_int (2 ^ k)" using assms by (simp only: of_int_le_iff)
  then show ?thesis by simp
qed



lemma float_min_Finite [simp]: "float_min (Finite a) (Finite b) = Finite (min a b)"
  by (auto simp: float_min_def min_def)

subsection \<open>The scaled size stays within the target\<close>






section \<open>Properties of the geometry functions\<close>

text \<open>
  Claim C10. The three pure functions are written twice, once in each script, with the
  same text; the functions of \<^verbatim>\<open>10x15_Photo_Formatter.py\<close> and those of
  \<^verbatim>\<open>photo_formatter.py\<close> return the same result (value or exception) on every input.
\<close>

theorem core_functions_agree:
  "cm_to_px_script = cm_to_px
   \<and> compute_target_canvas_script = compute_target_canvas
   \<and> fit_with_letterbox_script = fit_with_letterbox"
proof (intro conjI)
  show c: "cm_to_px_script = cm_to_px"
    by (intro ext) (simp add: cm_to_px_script_def cm_to_px_def)
  show "compute_target_canvas_script = compute_target_canvas"
    unfolding compute_target_canvas_script_def compute_target_canvas_def c ..
  show "fit_with_letterbox_script = fit_with_letterbox"
    unfolding fit_with_letterbox_script_def fit_with_letterbox_def ..
qed

text \<open>
  Claim C2. Canvas selection returns the pixel canvas of Landscape (15 cm wide, 10 cm
  high) when the width is at least the height, the square case included, and that of
  Portrait (10 cm wide, 15 cm high) when the width is smaller than the height.
\<close>

theorem canvas_selection:
  "(img_w \<ge> img_h \<longrightarrow> compute_target_canvas img_w img_h dpi = pixel_canvas Landscape dpi)
   \<and> (img_w = img_h \<longrightarrow> compute_target_canvas img_w img_h dpi = pixel_canvas Landscape dpi)
   \<and> (img_w < img_h \<longrightarrow> compute_target_canvas img_w img_h dpi = pixel_canvas Portrait dpi)"
  unfolding compute_target_canvas_def pixel_canvas_def width_cm.simps height_cm.simps
  by simp

theorem canvas_selection_witness:
  "compute_target_canvas 1200 800 300 = pixel_canvas Landscape 300
   \<and> compute_target_canvas 500 500 300 = pixel_canvas Landscape 300
   \<and> compute_target_canvas 800 1200 300 = pixel_canvas Portrait 300"
  using canvas_selection [of 800 1200 300] canvas_selection [of 500 500 300]
    canvas_selection [of 1200 800 300]
  by simp

subsection \<open>\<open>cm_to_px\<close> step by step\<close>

text \<open>The value of the literal \<^verbatim>\<open>2.54\<close>.\<close>

definition c254 :: rat where
  "c254 = 2859785763380265 / 1125899906842624"

lemma to_double_254: "to_double (254 / 100) = Finite c254"
  unfolding c254_def by (rule to_double_eq [OF lit_254]) simp

lemma c254_bounds: "1 \<le> c254" "c254 \<noteq> 0" "0 < c254"
  by (simp_all add: c254_def)

text \<open>The magnitudes below the overflow threshold.\<close>

definition in_range :: "rat \<Rightarrow> bool" where
  "in_range y \<longleftrightarrow> \<bar>y\<bar> < 2 ^ 1024"

lemma to_double_cases:
  "to_double x = (if in_range (fl x) then Finite (fl x) else if 0 < fl x then PosInf else NegInf)"
  by (auto simp: to_double_def in_range_def Let_def abs_less_iff not_le not_less)

lemma in_range_powi:
  assumes "\<bar>y\<bar> \<le> 2 powi k" "k < 1024"
  shows "in_range y"
proof -
  have "(2::rat) powi k < 2 powi 1024"
    by (rule power_int_strict_increasing) (use assms(2) in simp_all)
  with assms(1) have "\<bar>y\<bar> < 2 powi 1024" by (rule le_less_trans)
  then show ?thesis by (simp add: in_range_def)
qed

lemma in_range_between: "0 \<le> x \<Longrightarrow> x \<le> y \<Longrightarrow> in_range y \<Longrightarrow> in_range x"
  by (simp add: in_range_def)

lemma float_of_int_eq:
  "float_of_int n =
     (if in_range (fl (of_int n)) then Inr (Finite (fl (of_int n)))
      else Inl (OverflowError ''int too large to convert to float''))"
  by (simp add: float_of_int_def to_double_cases)

lemma py_round_mul_Inr_iff:
  "py_round (float_mul z (Finite d)) = Inr r \<longleftrightarrow>
     (\<exists>i. z = Finite i \<and> in_range (fl (i * d)) \<and> r = round_half_even (fl (i * d)))"
  by (cases z) (auto simp: to_double_cases)

lemma cm_to_px_eq:
  "cm_to_px cm dpi =
     (if \<not> in_range (fl (of_int cm))
      then Inl (OverflowError ''int too large to convert to float'')
      else if \<not> in_range (fl (of_int dpi))
      then Inl (OverflowError ''int too large to convert to float'')
      else py_round (float_mul (to_double (fl (of_int cm) / c254)) (Finite (fl (of_int dpi)))))"
  unfolding cm_to_px_def to_double_254 float_of_int_eq
  using c254_bounds(2) by simp

lemma cm_to_px_Inr_iff:
  "cm_to_px cm dpi = Inr r \<longleftrightarrow>
     in_range (fl (of_int cm))
     \<and> in_range (fl (fl (of_int cm) / c254))
     \<and> in_range (fl (of_int dpi))
     \<and> in_range (fl (fl (fl (of_int cm) / c254) * fl (of_int dpi)))
     \<and> r = round_half_even (fl (fl (fl (of_int cm) / c254) * fl (of_int dpi)))"
  unfolding cm_to_px_eq
  by (auto simp: py_round_mul_Inr_iff to_double_cases split: if_splits)

lemma cm_to_px_total:
  assumes "\<bar>cm\<bar> \<le> 2 ^ 64" "\<bar>dpi\<bar> \<le> 2 ^ 64"
  shows "cm_to_px cm dpi
     = Inr (round_half_even (fl (fl (fl (of_int cm) / c254) * fl (of_int dpi))))"
proof -
  have c: "\<bar>fl (of_int cm)\<bar> \<le> 2 powi 64"
    using of_int_abs_le_powi [OF assms(1)] by (intro fl_abs_le_pow2) simp_all
  have d: "\<bar>fl (of_int dpi)\<bar> \<le> 2 powi 64"
    using of_int_abs_le_powi [OF assms(2)] by (intro fl_abs_le_pow2) simp_all
  have "\<bar>fl (of_int cm) / c254\<bar> = \<bar>fl (of_int cm)\<bar> / c254"
    using c254_bounds(3) by (simp add: abs_divide)
  also have "\<dots> \<le> \<bar>fl (of_int cm)\<bar> / 1"
    using c254_bounds(1) by (intro divide_left_mono) simp_all
  finally have "\<bar>fl (of_int cm) / c254\<bar> \<le> 2 powi 64" using c by simp
  then have i: "\<bar>fl (fl (of_int cm) / c254)\<bar> \<le> 2 powi 64"
    by (rule fl_abs_le_pow2) simp
  have "\<bar>fl (fl (of_int cm) / c254) * fl (of_int dpi)\<bar> \<le> 2 powi 64 * 2 powi 64"
    unfolding abs_mult using i d by (intro mult_mono) simp_all
  also have "\<dots> = (2::rat) powi 128" by (simp flip: power_int_add)
  finally have p: "\<bar>fl (fl (fl (of_int cm) / c254) * fl (of_int dpi))\<bar> \<le> 2 powi 128"
    by (rule fl_abs_le_pow2) simp
  show ?thesis
    unfolding cm_to_px_Inr_iff
    using in_range_powi [OF c] in_range_powi [OF d] in_range_powi [OF i] in_range_powi [OF p]
    by simp
qed

lemma rhe_0 [simp]: "round_half_even 0 = 0"
  using rhe_of_int [of 0] by simp




lemma inches_nonneg: "0 \<le> cm \<Longrightarrow> 0 \<le> fl (fl (of_int cm) / c254)"
proof -
  assume "0 \<le> cm"
  then have "0 \<le> fl (of_int cm)" by (intro fl_nonneg) simp
  then have "0 \<le> fl (of_int cm) / c254" using c254_bounds(3) by simp
  then show ?thesis by (rule fl_nonneg)
qed

text \<open>
  Claim C9. For a positive length and positive DPIs \<open>dpi1 \<le> dpi2\<close>: whenever
  \<open>cm_to_px\<close> returns for \<open>dpi2\<close> it returns for \<open>dpi1\<close> too, and the value for \<open>dpi1\<close>
  is at most the value for \<open>dpi2\<close>. For lengths and DPIs up to \<open>2\<^sup>6\<^sup>4\<close> it does
  return for both.
\<close>

theorem cm_to_px_monotone:
  assumes "0 < cm" "0 < dpi1" "dpi1 \<le> dpi2"
  shows "(\<forall>b. cm_to_px cm dpi2 = Inr b \<longrightarrow> (\<exists>a. cm_to_px cm dpi1 = Inr a \<and> a \<le> b))
     \<and> (cm \<le> 2 ^ 64 \<and> dpi2 \<le> 2 ^ 64 \<longrightarrow>
          (\<exists>a b. cm_to_px cm dpi1 = Inr a \<and> cm_to_px cm dpi2 = Inr b \<and> a \<le> b))"
proof -
  define i where "i = fl (fl (of_int cm) / c254)"
  define d1 :: rat where "d1 = fl (of_int dpi1)"
  define d2 :: rat where "d2 = fl (of_int dpi2)"
  have i0: "0 \<le> i" unfolding i_def using assms(1) by (intro inches_nonneg) simp
  have d10: "0 \<le> d1" unfolding d1_def using assms(2) by (intro fl_nonneg) simp
  have d12: "d1 \<le> d2" unfolding d1_def d2_def using assms(3) by (intro fl_mono) simp
  have p0: "0 \<le> fl (i * d1)" using i0 d10 by (intro fl_nonneg) simp
  have p12: "fl (i * d1) \<le> fl (i * d2)"
    using i0 d12 by (intro fl_mono mult_left_mono)
  have mono: "\<exists>a. cm_to_px cm dpi1 = Inr a \<and> a \<le> b" if "cm_to_px cm dpi2 = Inr b" for b
  proof -
    from that have c: "in_range (fl (of_int cm))" and ii: "in_range i"
      and d: "in_range d2" and p: "in_range (fl (i * d2))"
      and b: "b = round_half_even (fl (i * d2))"
      unfolding cm_to_px_Inr_iff i_def d2_def by simp_all
    have "in_range d1" using d10 d12 d by (rule in_range_between)
    moreover have "in_range (fl (i * d1))" using p0 p12 p by (rule in_range_between)
    ultimately have "cm_to_px cm dpi1 = Inr (round_half_even (fl (i * d1)))"
      unfolding cm_to_px_Inr_iff using c ii by (simp add: i_def d1_def)
    moreover have "round_half_even (fl (i * d1)) \<le> b"
      unfolding b using p12 by (rule rhe_mono)
    ultimately show ?thesis by blast
  qed
  have total: "\<exists>a b. cm_to_px cm dpi1 = Inr a \<and> cm_to_px cm dpi2 = Inr b \<and> a \<le> b"
    if "cm \<le> 2 ^ 64" "dpi2 \<le> 2 ^ 64"
  proof -
    have "\<bar>cm\<bar> \<le> 2 ^ 64" "\<bar>dpi2\<bar> \<le> 2 ^ 64" using assms that by simp_all
    then obtain b where b: "cm_to_px cm dpi2 = Inr b" using cm_to_px_total by blast
    with mono [OF b] show ?thesis by blast
  qed
  from mono total show ?thesis by blast
qed

lemma cm_to_px_15_300: "cm_to_px 15 300 = Inr 1772"
proof -
  have a: "fl (of_int 15) = 15" "fl (of_int 300) = 300"
    using fl_of_int [of 15] fl_of_int [of 300] by simp_all
  have i: "fl (15 / c254) = 831126899736189 / 140737488355328"
    unfolding c254_def by (rule inches_15)
  have p: "fl (831126899736189 / 140737488355328 * 300) = 1947953671256693 / 1099511627776"
    by (rule px_15_300)
  have r: "round_half_even (1947953671256693 / 1099511627776) = 1772"
    by (rule rhe_unique) simp
  show ?thesis unfolding cm_to_px_Inr_iff a i p r by (simp add: in_range_def)
qed

lemma cm_to_px_10_300: "cm_to_px 10 300 = Inr 1181"
proof -
  have a: "fl (of_int 10) = 10" "fl (of_int 300) = 300"
    using fl_of_int [of 10] fl_of_int [of 300] by simp_all
  have i: "fl (10 / c254) = 277042299912063 / 70368744177664"
    unfolding c254_def by (rule inches_10)
  have p: "fl (277042299912063 / 70368744177664 * 300) = 5194543123351181 / 4398046511104"
    by (rule px_10_300)
  have r: "round_half_even (5194543123351181 / 4398046511104) = 1181"
    by (rule rhe_unique) simp
  show ?thesis unfolding cm_to_px_Inr_iff a i p r by (simp add: in_range_def)
qed

theorem cm_to_px_monotone_witness:
  "cm_to_px 10 300 = Inr 1181 \<and> cm_to_px 15 300 = Inr 1772
   \<and> (\<exists>a. cm_to_px 15 72 = Inr a \<and> a \<le> 1772)"
  using cm_to_px_monotone [of 15 72 300] cm_to_px_15_300 cm_to_px_10_300 by simp

subsection \<open>Agreement with exact arithmetic\<close>


















section \<open>Properties of the compositor\<close>

lemma im_size_convert [simp]: "im_size (convert img m) = im_size img"
  by (simp add: convert_def)

lemma im_mode_convert [simp]: "im_mode (convert img m) = m"
  by (simp add: convert_def)




section \<open>Properties of the output names\<close>

text \<open>The sequence of names of the specification: \<open>stem_10x15.jpg\<close>, \<open>stem_10x15_1.jpg\<close>,
  \<open>stem_10x15_2.jpg\<close>, ...\<close>

fun candidate :: "string \<Rightarrow> nat \<Rightarrow> string" where
  "candidate base 0 = first_name base"
| "candidate base (Suc k) = numbered_name base (Suc k)"

lemma probe_unused: "\<not> path_exists d (probe d base dest counter)"
proof (induction d base dest counter rule: probe.induct)
  case (1 out_dir base dest counter)
  then show ?case by (subst probe.simps) simp
qed

lemma probe_first:
  "(probe d base dest counter = dest \<and> \<not> path_exists d dest) \<or>
   (\<exists>k\<ge>counter. probe d base dest counter = numbered_name base k
      \<and> path_exists d dest
      \<and> (\<forall>j. counter \<le> j \<and> j < k \<longrightarrow> path_exists d (numbered_name base j)))"
proof (induction d base dest counter rule: probe.induct)
  case (1 d base dest counter)
  show ?case
  proof (cases "path_exists d dest")
    case False
    then show ?thesis by (subst probe.simps) simp
  next
    case True
    then have eq: "probe d base dest counter = probe d base (numbered_name base counter) (counter + 1)"
      by (subst probe.simps) simp
    from "1.IH" [OF True]
    consider (a) "probe d base (numbered_name base counter) (counter + 1) = numbered_name base counter"
               "\<not> path_exists d (numbered_name base counter)"
      | (b) k where "counter + 1 \<le> k"
          "probe d base (numbered_name base counter) (counter + 1) = numbered_name base k"
          "path_exists d (numbered_name base counter)"
          "\<forall>j. counter + 1 \<le> j \<and> j < k \<longrightarrow> path_exists d (numbered_name base j)"
      by blast
    then show ?thesis
    proof cases
      case a
      with True eq show ?thesis by auto
    next
      case b
      have "\<forall>j. counter \<le> j \<and> j < k \<longrightarrow> path_exists d (numbered_name base j)"
      proof (intro allI impI)
        fix j assume "counter \<le> j \<and> j < k"
        then consider "j = counter" | "counter + 1 \<le> j \<and> j < k" by linarith
        then show "path_exists d (numbered_name base j)" using b(3,4) by cases auto
      qed
      with b(1,2) True eq show ?thesis by (intro disjI2 exI [of _ k]) auto
    qed
  qed
qed

lemma next_available_name_first:
  "\<exists>k. next_available_name d stem = candidate stem k
       \<and> \<not> path_exists d (candidate stem k)
       \<and> (\<forall>j<k. path_exists d (candidate stem j))"
proof -
  from probe_first [of d stem "first_name stem" 1]
  consider (a) "next_available_name d stem = first_name stem" "\<not> path_exists d (first_name stem)"
    | (b) k where "1 \<le> k" "next_available_name d stem = numbered_name stem k"
        "path_exists d (first_name stem)"
        "\<forall>j. 1 \<le> j \<and> j < k \<longrightarrow> path_exists d (numbered_name stem j)"
    unfolding next_available_name_def by blast
  then show ?thesis
  proof cases
    case a
    then show ?thesis by (intro exI [of _ 0]) simp
  next
    case b
    from b(1) obtain m where k: "k = Suc m" by (cases k) auto
    have un: "\<not> path_exists d (candidate stem k)"
      using probe_unused [of d stem "first_name stem" 1] b(2)
      by (simp add: k next_available_name_def)
    have "\<forall>j<k. path_exists d (candidate stem j)"
    proof (intro allI impI)
      fix j assume "j < k"
      then show "path_exists d (candidate stem j)"
        using b(3,4) by (cases j) auto
    qed
    with b(2) un show ?thesis by (intro exI [of _ k]) (simp add: k)
  qed
qed

lemma next_available_name_eq:
  assumes "\<not> path_exists d (candidate stem k)" "\<forall>j<k. path_exists d (candidate stem j)"
  shows "next_available_name d stem = candidate stem k"
proof -
  from next_available_name_first [of d stem] obtain k' where
    e: "next_available_name d stem = candidate stem k'"
    and u: "\<not> path_exists d (candidate stem k')"
    and b: "\<forall>j<k'. path_exists d (candidate stem j)" by blast
  have "k' = k"
  proof (rule ccontr)
    assume "k' \<noteq> k"
    then consider "k' < k" | "k < k'" by linarith
    then show False using assms u b by cases auto
  qed
  with e show ?thesis by simp
qed

lemma path_exists_Nil [simp]: "\<not> path_exists [] name"
  by (simp add: path_exists_def)

lemma path_exists_Cons [simp]:
  "path_exists ((n, c) # d) name \<longleftrightarrow> name = n \<or> path_exists d name"
  by (auto simp: path_exists_def)

lemma str_nat_1_2:
  "str_nat (Suc 0) = ''1''" "str_nat (Suc (Suc 0)) = ''2''"
  by (simp_all add: str_nat.simps digit_char_def)

lemma candidate_012:
  "candidate stem 0 = stem @ ''_10x15.jpg''"
  "candidate stem (Suc 0) = stem @ ''_10x15_1.jpg''"
  "candidate stem (Suc (Suc 0)) = stem @ ''_10x15_2.jpg''"
  by (simp_all add: first_name_def numbered_name_def str_nat_1_2 del: One_nat_def)

lemma three_names:
  assumes "\<not> path_exists d (stem @ ''_10x15.jpg'')"
    and "\<not> path_exists d (stem @ ''_10x15_1.jpg'')"
    and "\<not> path_exists d (stem @ ''_10x15_2.jpg'')"
  shows "next_available_name d stem = stem @ ''_10x15.jpg''"
    and "next_available_name ((stem @ ''_10x15.jpg'', ca) # d) stem = stem @ ''_10x15_1.jpg''"
    and "next_available_name
           ((stem @ ''_10x15_1.jpg'', cb) # (stem @ ''_10x15.jpg'', ca) # d) stem
         = stem @ ''_10x15_2.jpg''"
proof -
  let ?d1 = "(stem @ ''_10x15.jpg'', ca) # d"
  let ?d2 = "(stem @ ''_10x15_1.jpg'', cb) # ?d1"
  have "\<not> path_exists d (candidate stem 0)"
    using assms(1) by (simp add: candidate_012 del: candidate.simps)
  then have "next_available_name d stem = candidate stem 0"
    by (rule next_available_name_eq) simp
  then show "next_available_name d stem = stem @ ''_10x15.jpg''"
    by (simp only: candidate_012)
  have "\<not> path_exists ?d1 (candidate stem (Suc 0))"
    using assms(2) by (simp add: candidate_012 del: candidate.simps)
  moreover have "\<forall>j<Suc 0. path_exists ?d1 (candidate stem j)"
    by (simp add: candidate_012 del: candidate.simps)
  ultimately have "next_available_name ?d1 stem = candidate stem (Suc 0)"
    by (rule next_available_name_eq)
  then show "next_available_name ?d1 stem = stem @ ''_10x15_1.jpg''"
    by (simp only: candidate_012)
  have "\<not> path_exists ?d2 (candidate stem (Suc (Suc 0)))"
    using assms(3) by (simp add: candidate_012 del: candidate.simps)
  moreover have "\<forall>j<Suc (Suc 0). path_exists ?d2 (candidate stem j)"
    by (simp add: less_Suc_eq candidate_012 del: candidate.simps)
  ultimately have "next_available_name ?d2 stem = candidate stem (Suc (Suc 0))"
    by (rule next_available_name_eq)
  then show "next_available_name ?d2 stem = stem @ ''_10x15_2.jpg''"
    by (simp only: candidate_012)
qed

text \<open>
  Claim C6. For every stem and every content of the destination directory, the name
  chosen is the first one of the sequence that does not exist there (every earlier one
  exists), so it never is an existing path. When the first three names of the sequence
  are free, three calls in a row, each followed by the creation of the name it returned,
  return \<open>stem_10x15.jpg\<close>, \<open>stem_10x15_1.jpg\<close> and \<open>stem_10x15_2.jpg\<close> in that order.
\<close>

theorem output_namer:
  "(\<exists>k. next_available_name d stem = candidate stem k
        \<and> (\<forall>j<k. path_exists d (candidate stem j)))
   \<and> \<not> path_exists d (next_available_name d stem)
   \<and> (\<not> path_exists d (stem @ ''_10x15.jpg'') \<and> \<not> path_exists d (stem @ ''_10x15_1.jpg'')
        \<and> \<not> path_exists d (stem @ ''_10x15_2.jpg'') \<longrightarrow>
      (let n1 = next_available_name d stem;
           d1 = (n1, c1) # d;
           n2 = next_available_name d1 stem;
           d2 = (n2, c2) # d1;
           n3 = next_available_name d2 stem
       in [n1, n2, n3] = [stem @ ''_10x15.jpg'', stem @ ''_10x15_1.jpg'', stem @ ''_10x15_2.jpg'']))"
proof (intro conjI impI)
  show "\<exists>k. next_available_name d stem = candidate stem k
        \<and> (\<forall>j<k. path_exists d (candidate stem j))"
    using next_available_name_first [of d stem] by blast
  show "\<not> path_exists d (next_available_name d stem)"
    using next_available_name_first [of d stem] by auto
next
  assume a: "\<not> path_exists d (stem @ ''_10x15.jpg'') \<and> \<not> path_exists d (stem @ ''_10x15_1.jpg'')
        \<and> \<not> path_exists d (stem @ ''_10x15_2.jpg'')"
  then have a1: "\<not> path_exists d (stem @ ''_10x15.jpg'')"
    and a2: "\<not> path_exists d (stem @ ''_10x15_1.jpg'')"
    and a3: "\<not> path_exists d (stem @ ''_10x15_2.jpg'')" by simp_all
  note n = three_names(1) [OF a1 a2 a3] three_names(2) [OF a1 a2 a3, where ca = c1]
    three_names(3) [OF a1 a2 a3, where ca = c1 and cb = c2]
  show "let n1 = next_available_name d stem;
           d1 = (n1, c1) # d;
           n2 = next_available_name d1 stem;
           d2 = (n2, c2) # d1;
           n3 = next_available_name d2 stem
       in [n1, n2, n3] = [stem @ ''_10x15.jpg'', stem @ ''_10x15_1.jpg'', stem @ ''_10x15_2.jpg'']"
    unfolding Let_def n by simp
qed

theorem output_namer_witness:
  "\<not> path_exists [(''a_10x15.jpg'', Truncated)]
       (next_available_name [(''a_10x15.jpg'', Truncated)] ''a'')
   \<and> (let n1 = next_available_name [] ''a'';
           d1 = (n1, Truncated) # [];
           n2 = next_available_name d1 ''a'';
           d2 = (n2, Truncated) # d1;
           n3 = next_available_name d2 ''a''
       in [n1, n2, n3] = [''a_10x15.jpg'', ''a_10x15_1.jpg'', ''a_10x15_2.jpg''])"
  using output_namer [of "[(''a_10x15.jpg'', Truncated)]" "''a''"]
    output_namer [of "[]" "''a''" Truncated Truncated]
  by simp

end
